theory Spec2Isabelle
  imports Complex_Main
begin

section \<open>Two-asset efficient frontier (notebook EF2): the embedding\<close>

text \<open>
  The notebook computes with NumPy double-precision numbers. The embedding has two
  layers. The first gives the value that each function computes and keeps the structure
  of the computation; it abstracts from rounding and from the range of binary64: a
  finite floating-point number is a \<^typ>\<open>real\<close>, and the three special values that
  NumPy produces instead of raising (a division by zero, a square root of a negative
  number) are kept as values of their own. An array of shape \<open>(N, 2)\<close> is a list of
  pairs, a column vector of shape \<open>(N, 1)\<close> is the list of its \<open>N\<close> entries. The second
  layer, the definitions named \<open>_call\<close>, adds what a call does beyond that: the
  exceptions raised by the arithmetic and by the matrix product, and for the returns
  the rounding of binary64.
\<close>

datatype fl = Fin real | PInf | NInf | NaN

datatype error = ValueError | OverflowError

text \<open>
  \<open>var**0.5\<close> on a NumPy scalar: the square root, and \<open>nan\<close> (with a warning, no
  exception and no complex number) when the base is negative.
\<close>

definition pow_half :: "real \<Rightarrow> fl" where
  "pow_half v = (if v < 0 then NaN else Fin (sqrt v))"

text \<open>
  \<open>x / y\<close> on NumPy arrays with a finite numerator: a zero denominator gives an
  infinity of the numerator's sign, or \<open>nan\<close> for \<open>0 / 0\<close>; nothing is raised.
\<close>

fun fl_div :: "real \<Rightarrow> fl \<Rightarrow> fl" where
  "fl_div x (Fin y) =
     (if y = 0 then (if 0 < x then PInf else if x < 0 then NInf else NaN)
      else Fin (x / y))"
| "fl_div x PInf = Fin 0"
| "fl_div x NInf = Fin 0"
| "fl_div x NaN = NaN"

text \<open>\<open>a > b\<close>: every comparison with \<open>nan\<close> is false.\<close>

fun fl_gt :: "fl \<Rightarrow> fl \<Rightarrow> bool" where
  "fl_gt (Fin x) (Fin y) = (y < x)"
| "fl_gt PInf (Fin y) = True"
| "fl_gt PInf NInf = True"
| "fl_gt (Fin x) NInf = True"
| "fl_gt a b = False"

text \<open>\<open>a == 0\<close>.\<close>

definition fl_eq0 :: "fl \<Rightarrow> bool" where
  "fl_eq0 a = (a = Fin 0)"

subsection \<open>The weight grid\<close>

text \<open>
  \<open>np.linspace(start, stop, num)\<close> is a library function; the model follows its
  implementation: a negative \<open>num\<close> raises \<open>ValueError\<close>, the samples are
  \<open>k * step + start\<close> with \<open>step = (stop - start) / (num - 1)\<close>, and for \<open>num > 1\<close>
  the last sample is overwritten by \<open>stop\<close>.
\<close>

definition linspace :: "real \<Rightarrow> real \<Rightarrow> int \<Rightarrow> error + real list" where
  "linspace start stop num =
     (if num < 0 then Inl ValueError
      else
        let dv = num - 1;
            delta = stop - start;
            y = map real [0..<nat num];
            y1 = (if 0 < dv
                  then (let step = delta / real_of_int dv
                        in if step = 0 then map (\<lambda>k. k / real_of_int dv * delta) y
                           else map (\<lambda>k. k * step) y)
                  else map (\<lambda>k. k * delta) y);
            y2 = map (\<lambda>k. k + start) y1
        in Inr (if 1 < num then y2[nat num - 1 := stop] else y2))"

text \<open>
  \<open>weights = np.array([[w,1-w] for w in np.linspace(0,1,n_points)])\<close>
\<close>

definition weights :: "int \<Rightarrow> error + (real \<times> real) list" where
  "weights n_points =
     (case linspace 0 1 n_points of
        Inl err \<Rightarrow> Inl err
      | Inr ls \<Rightarrow> Inr (map (\<lambda>w. (w, 1 - w)) ls))"

text \<open>
  The invariant of a weight grid in the data model: the first weight lies in \<open>[0, 1]\<close>
  and the second is its complement.
\<close>

definition weight_grid :: "(real \<times> real) list \<Rightarrow> bool" where
  "weight_grid ws = list_all (\<lambda>e. 0 \<le> fst e \<and> fst e \<le> 1 \<and> snd e = 1 - fst e) ws"

subsection \<open>Returns and volatility\<close>

text \<open>
  \<open>p_returns\<close>: \<open>weights @ np.array([[r_A], [r_B]])\<close>, the product of the \<open>(N, 2)\<close>
  grid with a \<open>(2, 1)\<close> column, as a value over the reals. (The grid expression with
  \<open>n_points = 0\<close> yields \<open>np.array([])\<close>, of shape \<open>(0,)\<close>, on which the product raises:
  see \<open>p_returns_call\<close>.)
\<close>

definition p_returns :: "(real \<times> real) list \<Rightarrow> real \<Rightarrow> real \<Rightarrow> real list" where
  "p_returns ws r_A r_B = map (\<lambda>e. fst e * r_A + snd e * r_B) ws"

text \<open>
  \<open>p_var\<close>: the loop appends one value per row of the grid, so it is a \<open>map\<close>;
  \<open>np.prod\<close> of a list is the product of its elements.
\<close>

definition p_var :: "(real \<times> real) list \<Rightarrow> real \<Rightarrow> real \<Rightarrow> real \<Rightarrow> fl list" where
  "p_var ws std_A std_B rho_AB =
     (let var_A = std_A ^ 2; var_B = std_B ^ 2
      in map (\<lambda>e.
           let var = (var_A ^ 2) * (fst e ^ 2) + (var_B ^ 2) * (snd e ^ 2)
                     + prod_list [2, fst e, snd e, var_A, var_B, rho_AB]
           in pow_half var) ws)"

text \<open>
  The two-asset formula of the notebook's explanatory text, in which each standard
  deviation is squared once.
\<close>

definition textbook_var :: "real \<times> real \<Rightarrow> real \<Rightarrow> real \<Rightarrow> real \<Rightarrow> real" where
  "textbook_var e std_A std_B rho =
     std_A ^ 2 * fst e ^ 2 + std_B ^ 2 * snd e ^ 2 + 2 * fst e * snd e * std_A * std_B * rho"

subsection \<open>The Sharpe search\<close>

text \<open>
  The state of the scan is \<open>(max_weights, max_sharpe_ratio)\<close>. \<open>max_weights\<close> starts as
  the integer \<open>0\<close> and is tested with \<open>isinstance(max_weights, int)\<close>: \<open>None\<close> stands
  for that integer, \<open>Some e\<close> for a row of the grid. The assignment
  \<open>max_sharpe = sharpe\<close> in the last branch writes a local variable that is never read,
  so it leaves the state unchanged.
\<close>

type_synonym scan_state = "(real \<times> real) option \<times> fl"

definition sharpe_at :: "real \<Rightarrow> real list \<Rightarrow> fl list \<Rightarrow> nat \<Rightarrow> fl" where
  "sharpe_at r_f rets vol i = fl_div (rets ! i - r_f) (vol ! i)"

definition scan_step :: "real \<Rightarrow> real list \<Rightarrow> fl list \<Rightarrow> nat \<times> (real \<times> real) \<Rightarrow> scan_state \<Rightarrow> scan_state" where
  "scan_step r_f rets vol ie st =
     (let i = fst ie; e = snd ie;
          max_weights = fst st; max_sharpe_ratio = snd st;
          sharpe = sharpe_at r_f rets vol i;
          max_weights = (if max_weights = None then Some e else max_weights);
          max_sharpe_ratio = (if fl_eq0 max_sharpe_ratio then sharpe else max_sharpe_ratio);
          max_weights = (if fl_gt sharpe max_sharpe_ratio then Some e else max_weights)
      in (max_weights, max_sharpe_ratio))"

definition max_sharpe ::
  "real \<Rightarrow> (real \<times> real) list \<Rightarrow> real \<times> real \<Rightarrow> real \<times> real \<Rightarrow> real \<Rightarrow> scan_state" where
  "max_sharpe r_f ws A B rho_AB =
     (let rets = p_returns ws (fst A) (fst B);
          vol = p_var ws (snd A) (snd B) rho_AB
      in fold (scan_step r_f rets vol) (enumerate 0 ws) (None, Fin 0))"

text \<open>The Sharpe ratios of all grid points, in grid order.\<close>

definition sharpes :: "real \<Rightarrow> (real \<times> real) list \<Rightarrow> real \<times> real \<Rightarrow> real \<times> real \<Rightarrow> real \<Rightarrow> fl list" where
  "sharpes r_f ws A B rho_AB =
     map (sharpe_at r_f (p_returns ws (fst A) (fst B)) (p_var ws (snd A) (snd B) rho_AB))
       [0..<length ws]"

subsection \<open>The calls: exceptions and rounding\<close>

text \<open>
  A real number rounds to an infinity in binary64 when its magnitude reaches
  \<open>2^1024 - 2^970\<close>, half a unit in the last place above the largest finite number.
\<close>

definition overflows :: "real \<Rightarrow> bool" where
  "overflows x = (2 ^ 1024 - 2 ^ 970 \<le> \<bar>x\<bar>)"

text \<open>
  \<open>x**2\<close> on a Python \<open>float\<close>, which is what \<open>std_A\<close>, \<open>std_B\<close>, \<open>var_A\<close> and \<open>var_B\<close>
  are: where NumPy would return an infinity, Python raises \<open>OverflowError\<close>.
\<close>

definition py_pow2 :: "real \<Rightarrow> error + real" where
  "py_pow2 x = (if overflows (x ^ 2) then Inl OverflowError else Inr (x ^ 2))"

text \<open>
  \<open>p_var\<close> as called: \<open>std_A**2\<close> and \<open>std_B**2\<close> are evaluated first; \<open>var_A**2\<close> and
  \<open>var_B**2\<close> are evaluated in the body of the loop, so only when the grid has a row.
  Nothing else in the function raises: where another intermediate result leaves the
  range of binary64, NumPy continues with an infinity. The values are those of
  \<open>p_var\<close>, which are the values of the code, up to rounding, as long as every
  intermediate result stays in range.
\<close>

definition p_var_call :: "(real \<times> real) list \<Rightarrow> real \<Rightarrow> real \<Rightarrow> real \<Rightarrow> error + fl list" where
  "p_var_call ws std_A std_B rho_AB =
     (case py_pow2 std_A of
        Inl err \<Rightarrow> Inl err
      | Inr var_A \<Rightarrow>
          (case py_pow2 std_B of
             Inl err \<Rightarrow> Inl err
           | Inr var_B \<Rightarrow>
               if ws = [] then Inr []
               else (case py_pow2 var_A of
                       Inl err \<Rightarrow> Inl err
                     | Inr a \<Rightarrow>
                         (case py_pow2 var_B of
                            Inl err \<Rightarrow> Inl err
                          | Inr b \<Rightarrow> Inr (p_var ws std_A std_B rho_AB)))))"


text \<open>
  Rounding to binary64, to nearest with ties to even, of a number below the overflow
  threshold. The spacing of the binary64 numbers around \<open>x\<close> is \<open>2^(e - 52)\<close> where
  \<open>2^e \<le> |x| < 2^(e + 1)\<close>, and \<open>2^(-1074)\<close> in the subnormal range.
\<close>

definition round_even :: "real \<Rightarrow> int" where
  "round_even q =
     (let f = \<lfloor>q\<rfloor>; r = q - real_of_int f
      in if r < 1/2 then f else if 1/2 < r then f + 1 else if even f then f else f + 1)"

definition expo :: "real \<Rightarrow> int" where
  "expo x = \<lfloor>log 2 \<bar>x\<bar>\<rfloor>"

definition spacing :: "real \<Rightarrow> real" where
  "spacing x = 2 powr real_of_int (max (expo x) (- 1022) - 52)"

definition rnd64 :: "real \<Rightarrow> real" where
  "rnd64 x = (if x = 0 then 0 else real_of_int (round_even (x / spacing x)) * spacing x)"

text \<open>
  The result of an operation whose exact value is \<open>x\<close>: an infinity where \<open>x\<close> rounds
  beyond the largest finite number, the rounded \<open>x\<close> otherwise. The sum of two values
  follows the rules for infinities and \<open>nan\<close>.
\<close>

definition rnd_fl :: "real \<Rightarrow> fl" where
  "rnd_fl x = (if overflows x then (if 0 < x then PInf else NInf) else Fin (rnd64 x))"

fun fl_add :: "fl \<Rightarrow> fl \<Rightarrow> fl" where
  "fl_add (Fin x) (Fin y) = rnd_fl (x + y)"
| "fl_add NaN b = NaN"
| "fl_add a NaN = NaN"
| "fl_add PInf NInf = NaN"
| "fl_add NInf PInf = NaN"
| "fl_add PInf b = PInf"
| "fl_add a PInf = PInf"
| "fl_add NInf b = NInf"
| "fl_add a NInf = NInf"

text \<open>
  A fused multiply-add of finite factors: one rounding of \<open>x * y + c\<close>.
\<close>

fun fl_fma :: "real \<Rightarrow> real \<Rightarrow> fl \<Rightarrow> fl" where
  "fl_fma x y (Fin c) = rnd_fl (x * y + c)"
| "fl_fma x y PInf = PInf"
| "fl_fma x y NInf = NInf"
| "fl_fma x y NaN = NaN"

text \<open>
  \<open>p_returns\<close> as called, in binary64. Each entry of the product is the dot product of a
  row with the column, \<open>w_A * r_A + w_B * r_B\<close>. The source does not fix how the matrix
  product evaluates it: that is the choice of the linear-algebra library behind NumPy.
  The scheme is a parameter: both products rounded and then added, or one product
  rounded and the other fused with the addition. Nothing is raised on overflow. On
  \<open>np.array([])\<close> the product raises \<open>ValueError\<close>.
\<close>

datatype dot_scheme = Separate | FusedSecond | FusedFirst

definition dot64 :: "dot_scheme \<Rightarrow> real \<times> real \<Rightarrow> real \<Rightarrow> real \<Rightarrow> fl" where
  "dot64 sch e r_A r_B =
     (case sch of
        Separate \<Rightarrow> fl_add (rnd_fl (fst e * r_A)) (rnd_fl (snd e * r_B))
      | FusedSecond \<Rightarrow> fl_fma (snd e) r_B (rnd_fl (fst e * r_A))
      | FusedFirst \<Rightarrow> fl_fma (fst e) r_A (rnd_fl (snd e * r_B)))"

definition p_returns_call ::
  "dot_scheme \<Rightarrow> (real \<times> real) list \<Rightarrow> real \<Rightarrow> real \<Rightarrow> error + fl list" where
  "p_returns_call sch ws r_A r_B =
     (if ws = [] then Inl ValueError else Inr (map (\<lambda>e. dot64 sch e r_A r_B) ws))"

text \<open>
  The value of the dot product when no intermediate result overflows.
\<close>

definition dot_rounded :: "dot_scheme \<Rightarrow> real \<times> real \<Rightarrow> real \<Rightarrow> real \<Rightarrow> real" where
  "dot_rounded sch e r_A r_B =
     (case sch of
        Separate \<Rightarrow> rnd64 (rnd64 (fst e * r_A) + rnd64 (snd e * r_B))
      | FusedSecond \<Rightarrow> rnd64 (snd e * r_B + rnd64 (fst e * r_A))
      | FusedFirst \<Rightarrow> rnd64 (fst e * r_A + rnd64 (snd e * r_B)))"

text \<open>
  The invariant of a weight grid as the grid expression computes it: the second weight
  is the rounded \<open>1 - w\<close>.
\<close>

definition weight_grid64 :: "(real \<times> real) list \<Rightarrow> bool" where
  "weight_grid64 ws =
     list_all (\<lambda>e. 0 \<le> fst e \<and> fst e \<le> 1 \<and> snd e = rnd64 (1 - fst e)) ws"

section \<open>The weight grid generator\<close>

lemma linspace_unit:
  assumes "2 \<le> N"
  shows "linspace 0 1 N = Inr (map (\<lambda>k. real k / real_of_int (N - 1)) [0..<nat N])"
proof -
  have pos: "0 < real_of_int (N - 1)" using assms by simp
  have last1: "real (nat N - 1) / real_of_int (N - 1) = 1"
  proof -
    have "real (nat N - 1) = real_of_int (N - 1)" using assms by (simp add: of_nat_diff)
    then show ?thesis using pos by simp
  qed
  have "(map (\<lambda>k. k + 0) (map (\<lambda>k. k * (1 / real_of_int (N - 1))) (map real [0..<nat N])))
          [nat N - 1 := 1]
        = map (\<lambda>k. real k / real_of_int (N - 1)) [0..<nat N]"
    by (rule nth_equalityI) (use assms in \<open>auto simp: nth_list_update last1\<close>)
  then show ?thesis using assms pos by (simp add: linspace_def Let_def)
qed

lemma weights_unit:
  assumes "2 \<le> N"
  shows "weights N =
    Inr (map (\<lambda>k. (real k / real_of_int (N - 1), 1 - real k / real_of_int (N - 1))) [0..<nat N])"
  by (simp add: weights_def linspace_unit [OF assms] comp_def)

text \<open>
  Claim C4. For every \<open>N \<ge> 2\<close> the grid generator returns a grid of exactly \<open>N\<close>
  pairs whose first element is \<open>(0, 1)\<close> and whose last element is \<open>(1, 0)\<close>; the
  first components are linearly spaced with step \<open>1 / (N - 1)\<close>, hence strictly
  increasing, and the two components of every pair sum to \<open>1\<close>. In particular the
  result satisfies the invariant \<open>weight_grid\<close>.
\<close>

theorem weights_grid_shape:
  assumes "2 \<le> N"
  shows "\<exists>ws. weights N = Inr ws \<and> length ws = nat N \<and> hd ws = (0, 1) \<and> last ws = (1, 0) \<and>
           (\<forall>i<nat N. fst (ws ! i) = real i / real_of_int (N - 1)) \<and>
           (\<forall>i j. i < j \<and> j < nat N \<longrightarrow> fst (ws ! i) < fst (ws ! j)) \<and>
           (\<forall>e\<in>set ws. fst e + snd e = 1) \<and> weight_grid ws"
proof -
  define ws where
    "ws = map (\<lambda>k. (real k / real_of_int (N - 1), 1 - real k / real_of_int (N - 1))) [0..<nat N]"
  have pos: "0 < real_of_int (N - 1)" using assms by simp
  have len: "length ws = nat N" by (simp add: ws_def)
  have ne: "ws \<noteq> []" using assms len by auto
  have nth: "ws ! i = (real i / real_of_int (N - 1), 1 - real i / real_of_int (N - 1))"
    if "i < nat N" for i using that by (simp add: ws_def)
  have last1: "real (nat N - 1) / real_of_int (N - 1) = 1"
  proof -
    have "real (nat N - 1) = real_of_int (N - 1)" using assms by (simp add: of_nat_diff)
    then show ?thesis using pos by simp
  qed
  have "hd ws = ws ! 0" using ne by (simp add: hd_conv_nth)
  also have "\<dots> = (0, 1)" using assms by (simp add: nth)
  finally have h: "hd ws = (0, 1)" .
  have "last ws = ws ! (nat N - 1)" using ne len by (simp add: last_conv_nth)
  also have "\<dots> = (1, 0)" using assms by (simp add: nth last1)
  finally have l: "last ws = (1, 0)" .
  have st: "\<forall>i<nat N. fst (ws ! i) = real i / real_of_int (N - 1)" by (simp add: nth)
  have mono: "\<forall>i j. i < j \<and> j < nat N \<longrightarrow> fst (ws ! i) < fst (ws ! j)"
    using pos by (auto simp: nth divide_strict_right_mono)
  have sum1: "\<forall>e\<in>set ws. fst e + snd e = 1" by (auto simp: ws_def)
  have wg: "weight_grid ws"
  proof -
    have "0 \<le> real k / real_of_int (N - 1) \<and> real k / real_of_int (N - 1) \<le> 1" if "k < nat N" for k
    proof -
      have "real k \<le> real_of_int (N - 1)" using that assms by linarith
      then show ?thesis using pos by simp
    qed
    then show ?thesis by (auto simp: weight_grid_def list_all_iff ws_def)
  qed
  show ?thesis
    using weights_unit [OF assms] len h l st mono sum1 wg unfolding ws_def [symmetric] by blast
qed

theorem weights_grid_shape_witness:
  "(2::int) \<le> 3 \<and> weights 3 = Inr [(0, 1), (1/2, 1/2), (1, 0)]"
proof -
  have h: "(2::int) \<le> 3" by simp
  from weights_grid_shape [OF h] obtain ws where
    w: "weights 3 = Inr ws" "length ws = nat 3" "hd ws = (0, 1)" "last ws = (1, 0)"
       "\<forall>i<nat 3. fst (ws ! i) = real i / real_of_int (3 - 1)" "\<forall>e\<in>set ws. fst e + snd e = 1"
    by blast
  from w(2) obtain a b c where ws: "ws = [a, b, c]"
    by (auto simp: length_Suc_conv eval_nat_numeral)
  from w(3,4) ws have "a = (0, 1)" "c = (1, 0)" by simp_all
  moreover from w(5) ws have "fst b = 1/2" by (auto simp: eval_nat_numeral)
  moreover from w(6) ws have "fst b + snd b = 1" by simp
  ultimately have "b = (1/2, 1/2)" by (cases b) simp
  then show ?thesis using w(1) ws \<open>a = (0, 1)\<close> \<open>c = (1, 0)\<close> by simp
qed

text \<open>
  Claim C5 says that the generator fails for every \<open>N < 2\<close>. The expression has no
  check of its own: for \<open>N = 1\<close> it returns the one-point grid.
\<close>

theorem weights_one_counterexample: "weights 1 = Inr [(0, 1)]"
  by (simp add: weights_def linspace_def Let_def)

text \<open>
  Claim C5, amended. For \<open>N < 2\<close> the generator fails only when \<open>N\<close> is negative
  (the \<open>ValueError\<close> of \<open>np.linspace\<close>); \<open>N = 0\<close> gives the empty grid and
  \<open>N = 1\<close> the one-point grid \<open>[(0, 1)]\<close>.
\<close>

theorem weights_small:
  assumes "N < 2"
  shows "weights N = (if N < 0 then Inl ValueError else if N = 0 then Inr [] else Inr [(0, 1)])"
proof -
  consider "N < 0" | "N = 0" | "N = 1" using assms by linarith
  then show ?thesis
    by cases (simp_all add: weights_def linspace_def Let_def)
qed

theorem weights_small_witness: "(-1::int) < 2 \<and> weights (-1) = Inl ValueError"
  using weights_small [of "-1"] by simp

section \<open>Portfolio returns\<close>

lemma convex_between:
  fixes a x y :: real
  assumes "0 \<le> a" "a \<le> 1"
  shows "min x y \<le> a * x + (1 - a) * y \<and> a * x + (1 - a) * y \<le> max x y"
proof -
  have e: "a * x + (1 - a) * y = y + a * (x - y)" by (simp add: algebra_simps)
  show ?thesis
  proof (cases "x \<le> y")
    case True
    then have "a * (x - y) \<le> 0" using assms by (intro mult_nonneg_nonpos) simp_all
    moreover have "x - y \<le> a * (x - y)" using True assms
      using mult_right_mono_neg [of a 1 "x - y"] by simp
    moreover have "min x y = x" "max x y = y" using True by simp_all
    ultimately show ?thesis unfolding e by arith
  next
    case False
    then have "0 \<le> a * (x - y)" using assms by (intro mult_nonneg_nonneg) simp_all
    moreover have "a * (x - y) \<le> x - y" using False assms
      using mult_right_mono [of a 1 "x - y"] by simp
    moreover have "min x y = y" "max x y = x" using False by simp_all
    ultimately show ?thesis unfolding e by arith
  qed
qed

text \<open>Rounding to binary64 moves a number by at most half the spacing around it.\<close>

lemma round_even_bound: "\<bar>real_of_int (round_even q) - q\<bar> \<le> 1/2"
proof -
  have "real_of_int \<lfloor>q\<rfloor> \<le> q" "q < real_of_int \<lfloor>q\<rfloor> + 1" by linarith+
  then show ?thesis by (auto simp: round_even_def Let_def)
qed

lemma spacing_pos: "0 < spacing x"
  by (simp add: spacing_def)

lemma two_powr_neg: "2 powr (- real n) = 1 / 2 ^ n"
  by (simp add: powr_minus powr_realpow divide_inverse)

lemma spacing_le:
  assumes "x \<noteq> 0"
  shows "spacing x / 2 \<le> \<bar>x\<bar> / 2 ^ 53 + 1 / 2 ^ 1075"
proof (cases "- 1022 \<le> expo x")
  case True
  have "2 powr real_of_int (expo x) \<le> 2 powr (log 2 \<bar>x\<bar>)"
    unfolding expo_def by (intro powr_mono) simp_all
  also have "\<dots> = \<bar>x\<bar>" using assms by simp
  finally have e: "2 powr real_of_int (expo x) \<le> \<bar>x\<bar>" .
  have "spacing x = 2 powr real_of_int (expo x) * 2 powr (- real 52)"
    using True by (simp add: spacing_def max_def powr_add [symmetric])
  also have "\<dots> = 2 powr real_of_int (expo x) / 2 ^ 52" by (simp only: two_powr_neg) simp
  finally have "spacing x / 2 = 2 powr real_of_int (expo x) / 2 ^ 53" by simp
  also have "\<dots> \<le> \<bar>x\<bar> / 2 ^ 53" using e by (simp add: divide_right_mono)
  finally show ?thesis by simp
next
  case False
  then have "spacing x = 2 powr (- real 1074)" by (simp add: spacing_def max_def)
  also have "\<dots> = 1 / 2 ^ 1074" by (simp only: two_powr_neg)
  finally have "spacing x / 2 = 1 / 2 ^ 1075" by simp
  then show ?thesis by simp
qed

lemma rnd64_err: "\<bar>rnd64 x - x\<bar> \<le> \<bar>x\<bar> / 2 ^ 53 + 1 / 2 ^ 1075"
proof (cases "x = 0")
  case True
  then show ?thesis by (simp add: rnd64_def)
next
  case False
  let ?s = "spacing x"
  have sp: "0 < ?s" by (rule spacing_pos)
  have "rnd64 x - x = (real_of_int (round_even (x / ?s)) - x / ?s) * ?s"
    using False sp by (simp add: rnd64_def algebra_simps)
  then have "\<bar>rnd64 x - x\<bar> = \<bar>real_of_int (round_even (x / ?s)) - x / ?s\<bar> * ?s"
    using sp by (simp add: abs_mult)
  also have "\<dots> \<le> 1/2 * ?s"
    using round_even_bound [of "x / ?s"] sp by (intro mult_right_mono) simp_all
  also have "\<dots> = ?s / 2" by simp
  also have "\<dots> \<le> \<bar>x\<bar> / 2 ^ 53 + 1 / 2 ^ 1075" by (rule spacing_le [OF False])
  finally show ?thesis .
qed

lemma expo_eq:
  assumes "2 powr real_of_int e \<le> \<bar>x\<bar>" "\<bar>x\<bar> < 2 powr real_of_int (e + 1)"
  shows "expo x = e"
proof -
  have pos: "0 < \<bar>x\<bar>" using assms(1) by (smt (verit) powr_gt_zero)
  show ?thesis unfolding expo_def
    using assms pos by (subst floor_log_eq_powr_iff) simp_all
qed

lemma rnd64_eval_neg:
  assumes "1 / 2 ^ k \<le> \<bar>x\<bar>" "\<bar>x\<bar> < 2 / 2 ^ k" "k \<le> 1022"
  shows "rnd64 x = real_of_int (round_even (x * 2 ^ (k + 52))) / 2 ^ (k + 52)"
proof -
  have a: "2 powr real_of_int (- int k) = 1 / 2 ^ k"
    using two_powr_neg [of k] by simp
  have "2 powr (real_of_int (- int k) + 1) = 2 powr real_of_int (- int k) * 2 powr 1"
    by (rule powr_add)
  then have b: "2 powr real_of_int (- int k + 1) = 2 / 2 ^ k" using a by simp
  have e: "expo x = - int k" by (rule expo_eq) (simp_all only: a b assms)
  have "spacing x = 2 powr (- real (k + 52))"
    using assms(3) by (simp add: spacing_def e max_def)
  then have s: "spacing x = 1 / 2 ^ (k + 52)" by (simp only: two_powr_neg)
  have "0 < 1 / (2::real) ^ k" by simp
  with assms(1) have "0 < \<bar>x\<bar>" by linarith
  then have "x \<noteq> 0" by simp
  then show ?thesis by (simp add: rnd64_def s)
qed

lemma not_overflows_abs:
  assumes "\<bar>x\<bar> \<le> 2 ^ 1023 + 1"
  shows "\<not> overflows x"
proof -
  have "(2::real) ^ 1023 + 1 < 2 ^ 1024 - 2 ^ 970" by simp
  with assms show ?thesis unfolding overflows_def by linarith
qed

lemma rnd_fl_in_range: "\<bar>x\<bar> \<le> 2 ^ 1023 + 1 \<Longrightarrow> rnd_fl x = Fin (rnd64 x)"
  by (simp only: rnd_fl_def not_overflows_abs if_False)

lemma rnd_fl_small: "\<bar>x\<bar> \<le> 1 \<Longrightarrow> rnd_fl x = Fin (rnd64 x)"
proof -
  assume a: "\<bar>x\<bar> \<le> 1"
  have "(0::real) \<le> 2 ^ 1023" by simp
  with a have "\<bar>x\<bar> \<le> 2 ^ 1023 + 1" by linarith
  then show ?thesis by (rule rnd_fl_in_range)
qed

text \<open>
  The error of a rounded sum of the two products of a row \<open>(w, rnd64 (1 - w))\<close> with the
  column, each product rounded or exact, against the exact convex combination, and the
  magnitudes of the intermediate results.
\<close>

lemma dot_err:
  assumes w: "0 \<le> w" "w \<le> 1" and v: "v = rnd64 (1 - w)"
    and rA: "\<bar>rA\<bar> \<le> R" and rB: "\<bar>rB\<bar> \<le> R"
    and a': "a' = rnd64 (w * rA) \<or> a' = w * rA"
    and b': "b' = rnd64 (v * rB) \<or> b' = v * rB"
  shows "\<bar>rnd64 (a' + b') - (w * rA + (1 - w) * rB)\<bar> \<le> R / 2 ^ 49 + 1 / 2 ^ 1072 \<and>
         \<bar>w * rA\<bar> \<le> R \<and> \<bar>v * rB\<bar> \<le> 2 * R \<and> \<bar>a' + b'\<bar> \<le> 2 * R + 1"
proof -
  define u :: real where "u = 1 / 2 ^ 53"
  define h :: real where "h = 1 / 2 ^ 1075"
  define UR where "UR = u * R"
  have R0: "0 \<le> R" using rA by linarith
  have u0: "0 \<le> u" and u8: "u \<le> 1/8" by (simp_all add: u_def)
  have h0: "0 \<le> h" and h2: "2 * h \<le> 1" by (simp_all add: h_def)
  have hu: "h \<le> u" unfolding h_def u_def by (intro divide_left_mono power_increasing) simp_all
  have err: "\<bar>rnd64 x - x\<bar> \<le> u * \<bar>x\<bar> + h" for x
    using rnd64_err [of x] by (simp add: u_def h_def)
  have UR0: "0 \<le> UR" unfolding UR_def using u0 R0 by simp
  have UR8: "UR \<le> R / 8" unfolding UR_def using mult_right_mono [OF u8 R0] by simp
  have hR: "h * R \<le> UR" unfolding UR_def by (rule mult_right_mono [OF hu R0])
  have uh: "u * h \<le> h" using mult_right_mono [of u 1 h] u8 h0 by simp
  have w1: "\<bar>1 - w\<bar> \<le> 1" using w by simp
  have "u * \<bar>1 - w\<bar> \<le> u * 1" by (rule mult_left_mono [OF w1 u0])
  with err [of "1 - w"] have d: "\<bar>v - (1 - w)\<bar> \<le> u + h" unfolding v by simp
  have v1: "\<bar>v\<bar> \<le> (1 - w) + u + h" using d w by linarith
  have v2: "\<bar>v\<bar> \<le> 2" using v1 w u8 hu by linarith
  have aw: "\<bar>w * rA\<bar> \<le> w * R"
  proof -
    have "\<bar>w * rA\<bar> = w * \<bar>rA\<bar>" using w by (simp add: abs_mult)
    also have "\<dots> \<le> w * R" using w rA by (intro mult_left_mono) simp_all
    finally show ?thesis .
  qed
  have bv: "\<bar>v * rB\<bar> \<le> ((1 - w) + u + h) * R"
  proof -
    have "\<bar>v * rB\<bar> = \<bar>v\<bar> * \<bar>rB\<bar>" by (simp add: abs_mult)
    also have "\<dots> \<le> ((1 - w) + u + h) * R" using v1 rB R0 by (intro mult_mono) simp_all
    finally show ?thesis .
  qed
  have "w * R \<le> 1 * R" using w R0 by (intro mult_right_mono) simp_all
  with aw have a: "\<bar>w * rA\<bar> \<le> R" by simp
  have b: "\<bar>v * rB\<bar> \<le> 2 * R"
  proof -
    have "\<bar>v * rB\<bar> = \<bar>v\<bar> * \<bar>rB\<bar>" by (simp add: abs_mult)
    also have "\<dots> \<le> 2 * R" using v2 rB R0 by (intro mult_mono) simp_all
    finally show ?thesis .
  qed
  have "w * R + ((1 - w) + u + h) * R = R + UR + h * R" by (simp add: UR_def algebra_simps)
  with aw bv have ab: "\<bar>w * rA\<bar> + \<bar>v * rB\<bar> \<le> R + UR + h * R" by linarith
  have A: "\<bar>a' - w * rA\<bar> \<le> UR + h"
  proof -
    have "u * \<bar>w * rA\<bar> \<le> u * R" by (rule mult_left_mono [OF a u0])
    with err [of "w * rA"] have "\<bar>rnd64 (w * rA) - w * rA\<bar> \<le> UR + h" by (simp add: UR_def)
    with a' UR0 h0 show ?thesis by auto
  qed
  have B: "\<bar>b' - v * rB\<bar> \<le> 2 * UR + h"
  proof -
    have "u * \<bar>v * rB\<bar> \<le> u * (2 * R)" by (rule mult_left_mono [OF b u0])
    with err [of "v * rB"] have "\<bar>rnd64 (v * rB) - v * rB\<bar> \<le> 2 * UR + h" by (simp add: UR_def)
    with b' UR0 h0 show ?thesis by auto
  qed
  have D: "\<bar>v * rB - (1 - w) * rB\<bar> \<le> UR + h * R"
  proof -
    have "\<bar>v * rB - (1 - w) * rB\<bar> = \<bar>v - (1 - w)\<bar> * \<bar>rB\<bar>"
      by (simp add: abs_mult [symmetric] algebra_simps)
    also have "\<dots> \<le> (u + h) * R" using d rB R0 u0 h0 by (intro mult_mono) simp_all
    finally show ?thesis by (simp add: UR_def algebra_simps)
  qed
  let ?s = "a' + b'"
  have S: "\<bar>?s\<bar> \<le> 2 * R + 2 * h" using A B ab hR UR8 by linarith
  have C: "\<bar>rnd64 ?s - ?s\<bar> \<le> 2 * UR + 3 * h"
  proof -
    have "u * \<bar>?s\<bar> \<le> u * (2 * R + 2 * h)" by (rule mult_left_mono [OF S u0])
    also have "\<dots> = 2 * UR + 2 * (u * h)" by (simp add: UR_def algebra_simps)
    finally show ?thesis using err [of ?s] uh by linarith
  qed
  have "\<bar>rnd64 ?s - (w * rA + (1 - w) * rB)\<bar> \<le> 7 * UR + 5 * h"
    using A B C D hR by linarith
  also have "\<dots> \<le> 16 * UR + 8 * h" using UR0 h0 by linarith
  also have "\<dots> = R / 2 ^ 49 + 1 / 2 ^ 1072" by (simp add: UR_def u_def h_def)
  finally have E: "\<bar>rnd64 ?s - (w * rA + (1 - w) * rB)\<bar> \<le> R / 2 ^ 49 + 1 / 2 ^ 1072" .
  from S h2 have S1: "\<bar>?s\<bar> \<le> 2 * R + 1" by linarith
  from E a b S1 show ?thesis by blast
qed

lemma dot_rounded_err:
  assumes w: "0 \<le> fst e" "fst e \<le> 1" and v: "snd e = rnd64 (1 - fst e)"
    and rA: "\<bar>rA\<bar> \<le> R" and rB: "\<bar>rB\<bar> \<le> R"
  shows "\<bar>dot_rounded sch e rA rB - (fst e * rA + (1 - fst e) * rB)\<bar>
           \<le> R / 2 ^ 49 + 1 / 2 ^ 1072"
proof (cases sch)
  case Separate
  from dot_err [OF w v rA rB, of "rnd64 (fst e * rA)" "rnd64 (snd e * rB)"]
  show ?thesis by (simp add: dot_rounded_def Separate)
next
  case FusedSecond
  from dot_err [OF w v rA rB, of "rnd64 (fst e * rA)" "snd e * rB"]
  show ?thesis by (simp add: dot_rounded_def FusedSecond add.commute)
next
  case FusedFirst
  from dot_err [OF w v rA rB, of "fst e * rA" "rnd64 (snd e * rB)"]
  show ?thesis by (simp add: dot_rounded_def FusedFirst)
qed

lemma dot64_in_range:
  assumes w: "0 \<le> fst e" "fst e \<le> 1" and v: "snd e = rnd64 (1 - fst e)"
    and rA: "\<bar>rA\<bar> \<le> 2 ^ 1022" and rB: "\<bar>rB\<bar> \<le> 2 ^ 1022"
  shows "dot64 sch e rA rB = Fin (dot_rounded sch e rA rB)"
proof -
  have p: "(2::real) * 2 ^ 1022 = 2 ^ 1023" by simp
  have p0: "(0::real) \<le> 2 ^ 1022" by simp
  have rng: "\<bar>fst e * rA\<bar> \<le> 2 ^ 1023 + 1 \<and> \<bar>snd e * rB\<bar> \<le> 2 ^ 1023 + 1 \<and> \<bar>a' + b'\<bar> \<le> 2 ^ 1023 + 1"
    if "a' = rnd64 (fst e * rA) \<or> a' = fst e * rA" "b' = rnd64 (snd e * rB) \<or> b' = snd e * rB"
    for a' b'
  proof -
    from dot_err [OF w v rA rB that]
    have "\<bar>fst e * rA\<bar> \<le> 2 ^ 1022" "\<bar>snd e * rB\<bar> \<le> 2 * 2 ^ 1022" "\<bar>a' + b'\<bar> \<le> 2 * 2 ^ 1022 + 1"
      by blast+
    with p p0 show ?thesis by linarith
  qed
  show ?thesis
  proof (cases sch)
    case Separate
    from rng [of "rnd64 (fst e * rA)" "rnd64 (snd e * rB)"]
    have "rnd_fl (fst e * rA) = Fin (rnd64 (fst e * rA))"
      "rnd_fl (snd e * rB) = Fin (rnd64 (snd e * rB))"
      "rnd_fl (rnd64 (fst e * rA) + rnd64 (snd e * rB)) = Fin (rnd64 (rnd64 (fst e * rA) + rnd64 (snd e * rB)))"
      by (simp_all add: rnd_fl_in_range)
    then show ?thesis by (simp add: dot64_def dot_rounded_def Separate)
  next
    case FusedSecond
    from rng [of "rnd64 (fst e * rA)" "snd e * rB"]
    have "rnd_fl (fst e * rA) = Fin (rnd64 (fst e * rA))"
      "rnd_fl (snd e * rB + rnd64 (fst e * rA)) = Fin (rnd64 (snd e * rB + rnd64 (fst e * rA)))"
      by (simp_all add: rnd_fl_in_range add.commute)
    then show ?thesis by (simp add: dot64_def dot_rounded_def FusedSecond)
  next
    case FusedFirst
    from rng [of "fst e * rA" "rnd64 (snd e * rB)"]
    have "rnd_fl (snd e * rB) = Fin (rnd64 (snd e * rB))"
      "rnd_fl (fst e * rA + rnd64 (snd e * rB)) = Fin (rnd64 (fst e * rA + rnd64 (snd e * rB)))"
      by (simp_all add: rnd_fl_in_range)
    then show ?thesis by (simp add: dot64_def dot_rounded_def FusedFirst)
  qed
qed

text \<open>
  Claim C9 says that every value of the returns computation lies between
  \<open>min r_A r_B\<close> and \<open>max r_A r_B\<close> inclusive. In binary64 this fails on row 1 of the
  six-point grid with \<open>r_A = r_B = 0.1\<close>, whichever way the dot product is evaluated.
  The numbers below are the binary64 values written as fractions: \<open>0.2\<close> is
  \<open>3602879701896397 / 2^54\<close>, the rounded \<open>1 - 0.2\<close> is \<open>3602879701896397 / 2^52\<close>,
  \<open>0.1\<close> is \<open>3602879701896397 / 2^55\<close>, and the result \<open>7205759403792795 / 2^56\<close> is
  \<open>0.10000000000000002\<close>.
\<close>

theorem p_returns_bound_counterexample:
  "weight_grid64 [(3602879701896397 / 2 ^ 54, 3602879701896397 / 2 ^ 52)] \<and>
   p_returns_call Separate [(3602879701896397 / 2 ^ 54, 3602879701896397 / 2 ^ 52)]
       (3602879701896397 / 2 ^ 55) (3602879701896397 / 2 ^ 55)
     = Inr [Fin (7205759403792795 / 2 ^ 56)] \<and>
   p_returns_call FusedSecond [(3602879701896397 / 2 ^ 54, 3602879701896397 / 2 ^ 52)]
       (3602879701896397 / 2 ^ 55) (3602879701896397 / 2 ^ 55)
     = Inr [Fin (7205759403792795 / 2 ^ 56)] \<and>
   p_returns_call FusedFirst [(3602879701896397 / 2 ^ 54, 3602879701896397 / 2 ^ 52)]
       (3602879701896397 / 2 ^ 55) (3602879701896397 / 2 ^ 55)
     = Inr [Fin (7205759403792795 / 2 ^ 56)] \<and>
   max (3602879701896397 / 2 ^ 55) (3602879701896397 / 2 ^ 55) < (7205759403792795 / 2 ^ 56 :: real)"
proof -
  let ?e = "(3602879701896397 / 2 ^ 54, 3602879701896397 / 2 ^ 52) :: real \<times> real"
  let ?r = "3602879701896397 / 2 ^ 55 :: real"
  have c: "rnd64 (1 - 3602879701896397 / 2 ^ 54) = 3602879701896397 / 2 ^ 52"
    by (subst rnd64_eval_neg [of 1]) (simp_all add: round_even_def Let_def)
  have a: "rnd64 (3602879701896397 / 2 ^ 54 * (3602879701896397 / 2 ^ 55)) = 1441151880758559 / 2 ^ 56"
    by (subst rnd64_eval_neg [of 6]) (simp_all add: round_even_def Let_def)
  have b: "rnd64 (3602879701896397 / 2 ^ 52 * (3602879701896397 / 2 ^ 55)) = 1441151880758559 / 2 ^ 54"
    by (subst rnd64_eval_neg [of 4]) (simp_all add: round_even_def Let_def)
  have s: "rnd64 (1441151880758559 / 2 ^ 56 + 1441151880758559 / 2 ^ 54) = 7205759403792795 / 2 ^ 56"
    by (subst rnd64_eval_neg [of 4]) (simp_all add: round_even_def Let_def)
  have s2: "rnd64 (3602879701896397 / 2 ^ 52 * (3602879701896397 / 2 ^ 55) + 1441151880758559 / 2 ^ 56)
      = 7205759403792795 / 2 ^ 56"
    by (subst rnd64_eval_neg [of 4]) (simp_all add: round_even_def Let_def)
  have s1: "rnd64 (3602879701896397 / 2 ^ 54 * (3602879701896397 / 2 ^ 55) + 1441151880758559 / 2 ^ 54)
      = 7205759403792795 / 2 ^ 56"
    by (subst rnd64_eval_neg [of 4]) (simp_all add: round_even_def Let_def)
  have g: "weight_grid64 [?e]"
    unfolding weight_grid64_def by (simp only: list.pred_inject fst_conv snd_conv c) simp
  have w: "0 \<le> fst ?e" "fst ?e \<le> 1" "snd ?e = rnd64 (1 - fst ?e)"
    by (simp_all only: fst_conv snd_conv c) simp_all
  have r: "\<bar>?r\<bar> \<le> 2 ^ 1022"
  proof -
    have "\<bar>?r\<bar> \<le> 1" by simp
    moreover have "(1::real) \<le> 2 ^ 1022" by (rule one_le_power) simp
    ultimately show ?thesis by linarith
  qed
  have d: "dot64 sch ?e ?r ?r = Fin (dot_rounded sch ?e ?r ?r)" for sch
    by (rule dot64_in_range [OF w r r])
  have v1: "dot_rounded Separate ?e ?r ?r = 7205759403792795 / 2 ^ 56"
    unfolding dot_rounded_def by (simp only: dot_scheme.case fst_conv snd_conv a b s)
  have v2: "dot_rounded FusedSecond ?e ?r ?r = 7205759403792795 / 2 ^ 56"
    unfolding dot_rounded_def by (simp only: dot_scheme.case fst_conv snd_conv a s2)
  have v3: "dot_rounded FusedFirst ?e ?r ?r = 7205759403792795 / 2 ^ 56"
    unfolding dot_rounded_def by (simp only: dot_scheme.case fst_conv snd_conv b s1)
  have p: "p_returns_call sch [?e] ?r ?r = Inr [dot64 sch ?e ?r ?r]" for sch
    by (simp add: p_returns_call_def)
  have m: "max ?r ?r < (7205759403792795 / 2 ^ 56 :: real)" by simp
  from g p [of Separate] p [of FusedSecond] p [of FusedFirst] m show ?thesis
    by (simp only: d v1 v2 v3)
qed

text \<open>
  Claim C9, amended. On the empty array that the grid expression yields for
  \<open>n_points = 0\<close> the returns computation raises \<open>ValueError\<close>. On a grid with at
  least one row it returns one value per grid point; on a weight grid, for \<open>r_A\<close> and
  \<open>r_B\<close> of magnitude at most \<open>2^1022\<close>, the value at index \<open>i\<close> is
  \<open>w_A * r_A + w_B * r_B\<close> evaluated in binary64, and it lies between \<open>min r_A r_B\<close>
  and \<open>max r_A r_B\<close> up to a rounding error of at most
  \<open>max |r_A| |r_B| / 2^49 + 1 / 2^1072\<close>.
\<close>

theorem p_returns_call_spec:
  "(p_returns_call sch ws r_A r_B = Inl ValueError \<longleftrightarrow> ws = []) \<and>
   (ws \<noteq> [] \<longrightarrow>
     (\<exists>vs. p_returns_call sch ws r_A r_B = Inr vs \<and> length vs = length ws \<and>
        (weight_grid64 ws \<and> \<bar>r_A\<bar> \<le> 2 ^ 1022 \<and> \<bar>r_B\<bar> \<le> 2 ^ 1022 \<longrightarrow>
           (\<forall>i<length ws.
              vs ! i = Fin (dot_rounded sch (ws ! i) r_A r_B) \<and>
              min r_A r_B - (max \<bar>r_A\<bar> \<bar>r_B\<bar> / 2 ^ 49 + 1 / 2 ^ 1072)
                \<le> dot_rounded sch (ws ! i) r_A r_B \<and>
              dot_rounded sch (ws ! i) r_A r_B
                \<le> max r_A r_B + (max \<bar>r_A\<bar> \<bar>r_B\<bar> / 2 ^ 49 + 1 / 2 ^ 1072)))))"
proof (intro conjI impI)
  show "p_returns_call sch ws r_A r_B = Inl ValueError \<longleftrightarrow> ws = []"
    by (simp add: p_returns_call_def)
next
  assume ne: "ws \<noteq> []"
  let ?vs = "map (\<lambda>e. dot64 sch e r_A r_B) ws"
  let ?tol = "max \<bar>r_A\<bar> \<bar>r_B\<bar> / 2 ^ 49 + 1 / 2 ^ 1072"
  let ?y = "\<lambda>i. dot_rounded sch (ws ! i) r_A r_B"
  have 1: "p_returns_call sch ws r_A r_B = Inr ?vs" using ne by (simp add: p_returns_call_def)
  have 2: "length ?vs = length ws" by simp
  have 3: "weight_grid64 ws \<and> \<bar>r_A\<bar> \<le> 2 ^ 1022 \<and> \<bar>r_B\<bar> \<le> 2 ^ 1022 \<longrightarrow>
      (\<forall>i<length ws. ?vs ! i = Fin (?y i) \<and> min r_A r_B - ?tol \<le> ?y i \<and> ?y i \<le> max r_A r_B + ?tol)"
  proof (intro impI allI)
    fix i assume g: "weight_grid64 ws \<and> \<bar>r_A\<bar> \<le> 2 ^ 1022 \<and> \<bar>r_B\<bar> \<le> 2 ^ 1022"
      and i: "i < length ws"
    from g have rA: "\<bar>r_A\<bar> \<le> 2 ^ 1022" and rB: "\<bar>r_B\<bar> \<le> 2 ^ 1022" by blast+
    from g i have w: "0 \<le> fst (ws ! i)" "fst (ws ! i) \<le> 1"
      "snd (ws ! i) = rnd64 (1 - fst (ws ! i))"
      by (auto simp: weight_grid64_def list_all_length)
    have val: "?vs ! i = Fin (?y i)"
      using i by (simp only: nth_map dot64_in_range [OF w rA rB])
    have "\<bar>?y i - (fst (ws ! i) * r_A + (1 - fst (ws ! i)) * r_B)\<bar> \<le> ?tol"
      by (rule dot_rounded_err [OF w]) simp_all
    moreover from convex_between [OF w(1,2), of r_A r_B]
    have "min r_A r_B \<le> fst (ws ! i) * r_A + (1 - fst (ws ! i)) * r_B"
      "fst (ws ! i) * r_A + (1 - fst (ws ! i)) * r_B \<le> max r_A r_B" by simp_all
    ultimately have "min r_A r_B - ?tol \<le> ?y i \<and> ?y i \<le> max r_A r_B + ?tol" by linarith
    with val show "?vs ! i = Fin (?y i) \<and> min r_A r_B - ?tol \<le> ?y i \<and> ?y i \<le> max r_A r_B + ?tol"
      by blast
  qed
  from 1 2 3 show "\<exists>vs. p_returns_call sch ws r_A r_B = Inr vs \<and> length vs = length ws \<and>
        (weight_grid64 ws \<and> \<bar>r_A\<bar> \<le> 2 ^ 1022 \<and> \<bar>r_B\<bar> \<le> 2 ^ 1022 \<longrightarrow>
           (\<forall>i<length ws. vs ! i = Fin (?y i) \<and> min r_A r_B - ?tol \<le> ?y i \<and> ?y i \<le> max r_A r_B + ?tol))"
    by blast
qed

theorem p_returns_call_spec_witness:
  "[(1/2, 1/2)] \<noteq> ([] :: (real \<times> real) list) \<and> weight_grid64 [(1/2, 1/2)] \<and>
   \<bar>1 :: real\<bar> \<le> 2 ^ 1022 \<and> \<bar>3 :: real\<bar> \<le> 2 ^ 1022 \<and>
   (\<exists>vs y. p_returns_call FusedFirst [(1/2, 1/2)] 1 3 = Inr vs \<and> length vs = 1 \<and> vs ! 0 = Fin y \<and>
      min 1 3 - (max \<bar>1\<bar> \<bar>3\<bar> / 2 ^ 49 + 1 / 2 ^ 1072) \<le> y \<and>
      y \<le> max 1 3 + (max \<bar>1\<bar> \<bar>3\<bar> / 2 ^ 49 + 1 / 2 ^ 1072))"
proof -
  let ?ws = "[(1/2, 1/2)] :: (real \<times> real) list"
  have ne: "?ws \<noteq> []" by simp
  have c: "rnd64 (1 - 1/2) = 1/2"
    by (subst rnd64_eval_neg [of 1]) (simp_all add: round_even_def Let_def)
  have g: "weight_grid64 ?ws"
    unfolding weight_grid64_def by (simp only: list.pred_inject fst_conv snd_conv c) simp
  have r: "\<bar>1 :: real\<bar> \<le> 2 ^ 1022" "\<bar>3 :: real\<bar> \<le> 2 ^ 1022" by simp_all
  note T = p_returns_call_spec [where sch = FusedFirst and ws = ?ws and r_A = 1 and r_B = 3,
      THEN conjunct2, THEN mp, OF ne]
  then obtain vs where V: "p_returns_call FusedFirst ?ws 1 3 = Inr vs \<and> length vs = length ?ws \<and>
      (weight_grid64 ?ws \<and> \<bar>1 :: real\<bar> \<le> 2 ^ 1022 \<and> \<bar>3 :: real\<bar> \<le> 2 ^ 1022 \<longrightarrow>
         (\<forall>i<length ?ws.
            vs ! i = Fin (dot_rounded FusedFirst (?ws ! i) 1 3) \<and>
            min 1 3 - (max \<bar>1\<bar> \<bar>3\<bar> / 2 ^ 49 + 1 / 2 ^ 1072)
              \<le> dot_rounded FusedFirst (?ws ! i) 1 3 \<and>
            dot_rounded FusedFirst (?ws ! i) 1 3
              \<le> max 1 3 + (max \<bar>1\<bar> \<bar>3\<bar> / 2 ^ 49 + 1 / 2 ^ 1072)))" ..
  note v1 = V [THEN conjunct1] and v2 = V [THEN conjunct2, THEN conjunct1]
    and v3 = V [THEN conjunct2, THEN conjunct2, THEN mp, OF conjI [OF g conjI [OF r]], rule_format, of 0]
  have i: "(0::nat) < length ?ws" by simp
  from v2 have l: "length vs = 1" by simp
  from v3 [OF i] v1 l ne g r show ?thesis by blast
qed

section \<open>Portfolio volatility\<close>

lemma var_mono:
  fixes a :: real
  assumes "0 < a" "a < 1" "r1 < r2"
  shows "p + prod_list [2, a, 1 - a, s ^ 2, t ^ 2, r1] \<le> p + prod_list [2, a, 1 - a, s ^ 2, t ^ 2, r2]"
proof -
  have "0 \<le> 2 * a * (1 - a) * (s ^ 2 * t ^ 2)" using assms by simp
  then have "2 * a * (1 - a) * (s ^ 2 * t ^ 2) * r1 \<le> 2 * a * (1 - a) * (s ^ 2 * t ^ 2) * r2"
    using assms(3) by (intro mult_left_mono) simp_all
  then show ?thesis by (simp only: prod_list.Cons prod_list.Nil mult_1_right mult.assoc add_le_cancel_left)
qed

text \<open>
  Claim C8. At an interior point of a weight grid (\<open>0 < w_A < 1\<close>), if
  \<open>rho1 < rho2\<close> and the volatility computation returns a number (not \<open>nan\<close>) at that
  point for both correlations, then the volatility for \<open>rho1\<close> is at most the one for
  \<open>rho2\<close>. No assumption on the standard deviations is needed.
\<close>

theorem p_var_mono_rho:
  assumes "weight_grid ws" "i < length ws" "0 < fst (ws ! i)" "fst (ws ! i) < 1"
    and "rho1 < rho2"
    and "p_var ws std_A std_B rho1 ! i = Fin v1"
    and "p_var ws std_A std_B rho2 ! i = Fin v2"
  shows "v1 \<le> v2"
proof -
  have s: "snd (ws ! i) = 1 - fst (ws ! i)"
    using assms(1,2) by (auto simp: weight_grid_def list_all_length)
  define p where "p = ((std_A ^ 2) ^ 2) * (fst (ws ! i) ^ 2) + ((std_B ^ 2) ^ 2) * (snd (ws ! i) ^ 2)"
  define q where "q r = p + prod_list [2, fst (ws ! i), 1 - fst (ws ! i), std_A ^ 2, std_B ^ 2, r]" for r
  have v: "p_var ws std_A std_B r ! i = pow_half (q r)" for r
    using assms(2) s by (simp add: p_var_def Let_def q_def p_def)
  have le: "q rho1 \<le> q rho2" unfolding q_def by (rule var_mono [OF assms(3,4,5)])
  from assms(6) v have 1: "0 \<le> q rho1" "v1 = sqrt (q rho1)" by (auto simp: pow_half_def split: if_splits)
  from assms(7) v have 2: "0 \<le> q rho2" "v2 = sqrt (q rho2)" by (auto simp: pow_half_def split: if_splits)
  show ?thesis using le 1 2 by simp
qed

theorem p_var_mono_rho_witness:
  "weight_grid [(1/2, 1/2)] \<and>
   p_var [(1/2, 1/2)] 1 1 0 ! 0 = Fin (sqrt (1/2)) \<and>
   p_var [(1/2, 1/2)] 1 1 1 ! 0 = Fin 1 \<and> sqrt (1/2) \<le> 1"
proof -
  have g: "weight_grid [(1/2, 1/2)]" by (simp add: weight_grid_def)
  have a: "p_var [(1/2, 1/2)] 1 1 0 ! 0 = Fin (sqrt (1/2))"
    by (simp add: p_var_def pow_half_def power2_eq_square)
  have b: "p_var [(1/2, 1/2)] 1 1 1 ! 0 = Fin 1"
    by (simp add: p_var_def pow_half_def power2_eq_square)
  have "sqrt (1/2) \<le> 1"
    by (rule p_var_mono_rho [OF g _ _ _ _ a b]) simp_all
  with g a b show ?thesis by blast
qed

lemma sqrt_quarter: "sqrt (1/4) = 1/2"
  by (rule real_sqrt_unique) (simp_all add: power2_eq_square)

lemma sqrt_sixteenth: "sqrt (1/16) = 1/4"
  by (rule real_sqrt_unique) (simp_all add: power2_eq_square)

lemma sqrt_256th: "sqrt (1/256) = 1/16"
  by (rule real_sqrt_unique) (simp_all add: power2_eq_square)

text \<open>
  Claim C1 states the textbook formula, in which each standard deviation is squared
  once. The code squares the variances \<open>var_A = std_A**2\<close> and \<open>var_B = std_B**2\<close>
  a second time and uses them, not the standard deviations, in the cross term. With
  \<open>std_A = 1/2\<close>, \<open>std_B = 1/4\<close> and \<open>rho = 0\<close> on the grid \<open>[(0, 1), (1, 0)]\<close> the code
  returns \<open>1/16\<close> and \<open>1/4\<close> where the formula of the notebook's text gives \<open>1/4\<close> and
  \<open>1/2\<close>, the standard deviations of the pure assets.
\<close>

theorem p_var_double_square:
  "p_var [(0, 1), (1, 0)] (1/2) (1/4) 0 = [Fin (1/16), Fin (1/4)] \<and>
   map (\<lambda>e. sqrt (textbook_var e (1/2) (1/4) 0)) [(0, 1), (1, 0)] = [1/4, 1/2]"
  by (simp add: p_var_def textbook_var_def pow_half_def power2_eq_square
      sqrt_quarter sqrt_sixteenth sqrt_256th)

lemma not_overflows_le:
  assumes "0 \<le> x" "x \<le> 2 ^ 1020"
  shows "\<not> overflows x"
proof -
  have "(2::real) ^ 1020 < 2 ^ 1024 - 2 ^ 970" by simp
  with assms show ?thesis unfolding overflows_def by linarith
qed

lemma le_of_square_le:
  fixes x :: real
  assumes "0 \<le> x" "x ^ 2 \<le> 2 ^ 1020"
  shows "x \<le> 2 ^ 1020"
proof (cases "x \<le> 1")
  case True
  have "(1::real) \<le> 2 ^ 1020" by (rule one_le_power) simp
  with True show ?thesis by linarith
next
  case False
  then have "x * 1 \<le> x * x" using assms(1) by (intro mult_left_mono) simp_all
  then have "x \<le> x ^ 2" by (simp add: power2_eq_square)
  with assms(2) show ?thesis by linarith
qed

lemma p_var_call_eq:
  "p_var_call ws std_A std_B rho =
     (if overflows (std_A ^ 2) \<or> overflows (std_B ^ 2) \<or>
         (ws \<noteq> [] \<and> (overflows ((std_A ^ 2) ^ 2) \<or> overflows ((std_B ^ 2) ^ 2)))
      then Inl OverflowError else Inr (p_var ws std_A std_B rho))"
  by (simp add: p_var_call_def py_pow2_def p_var_def)

text \<open>
  Claim C6 says that \<open>rho = 1.5\<close>, and any input with a negative variance, makes the
  volatility computation fail. The code has no check: at \<open>rho = 1.5\<close> on a grid with
  non-negative weights the variance is positive and a number is returned, and a
  negative variance (here at \<open>rho = -1.5\<close>) gives \<open>nan\<close>.
\<close>

theorem p_var_call_rho_counterexample:
  "p_var_call [(1/2, 1/2)] 1 1 (3/2) = Inr [Fin (sqrt (5/4))] \<and>
   p_var_call [(1/2, 1/2)] 1 1 (- 3/2) = Inr [NaN]"
proof -
  have "(1::real) \<le> 2 ^ 1020" by (rule one_le_power) simp
  then have "\<not> overflows 1" by (intro not_overflows_le) simp_all
  then show ?thesis
    by (simp add: p_var_call_eq p_var_def pow_half_def power2_eq_square)
qed

lemma pow_half_cases: "pow_half v = NaN \<or> (\<exists>x\<ge>0. pow_half v = Fin x)"
  by (simp add: pow_half_def)

lemma code_var_nonneg:
  fixes a b w v rho :: real
  assumes "0 \<le> w" "0 \<le> v" "0 \<le> rho"
  shows "0 \<le> (a ^ 2) ^ 2 * w ^ 2 + (b ^ 2) ^ 2 * v ^ 2 + prod_list [2, w, v, a ^ 2, b ^ 2, rho]"
proof -
  have "0 \<le> 2 * (w * (v * (a ^ 2 * (b ^ 2 * rho))))"
    using assms by (intro mult_nonneg_nonneg) simp_all
  moreover have "0 \<le> (a ^ 2) ^ 2 * w ^ 2" "0 \<le> (b ^ 2) ^ 2 * v ^ 2" by simp_all
  ultimately show ?thesis by simp
qed

lemma p_var_values:
  "x \<in> set (p_var ws std_A std_B rho) \<Longrightarrow> x = NaN \<or> (\<exists>v\<ge>0. x = Fin v)"
proof -
  assume "x \<in> set (p_var ws std_A std_B rho)"
  then obtain v where "x = pow_half v" by (auto simp: p_var_def Let_def)
  then show ?thesis using pow_half_cases [of v] by simp
qed

lemma p_var_values_nonneg_rho:
  assumes "weight_grid ws" "0 \<le> rho" "x \<in> set (p_var ws std_A std_B rho)"
  shows "\<exists>v\<ge>0. x = Fin v"
proof -
  from assms(3) obtain e where e: "e \<in> set ws"
    "x = pow_half ((std_A ^ 2) ^ 2 * fst e ^ 2 + (std_B ^ 2) ^ 2 * snd e ^ 2
          + prod_list [2, fst e, snd e, std_A ^ 2, std_B ^ 2, rho])"
    by (auto simp: p_var_def Let_def)
  from assms(1) e(1) have "0 \<le> fst e" "0 \<le> snd e" by (auto simp: weight_grid_def list_all_iff)
  from code_var_nonneg [OF this assms(2), of std_A std_B] e(2)
  show ?thesis by (simp add: pow_half_def)
qed

text \<open>
  Claim C6, amended. The volatility computation has no check on \<open>rho\<close> or on the
  variance and signals no invalid input: it fails only with Python's \<open>OverflowError\<close>,
  when the square of a standard deviation or, on a grid with at least one row, its
  fourth power is beyond the range of binary64. On a weight grid, with \<open>|rho| \<le> 2\<close> and
  the fourth powers of the standard deviations at most \<open>2^1020\<close>, it returns one value
  per grid point, each a non-negative number or \<open>nan\<close>, and for \<open>rho \<ge> 0\<close>, in
  particular \<open>rho = 1.5\<close>, every value is a number.
\<close>

theorem p_var_call_checks:
  "((\<exists>err. p_var_call ws std_A std_B rho = Inl err) \<longleftrightarrow>
      overflows (std_A ^ 2) \<or> overflows (std_B ^ 2) \<or>
      (ws \<noteq> [] \<and> (overflows ((std_A ^ 2) ^ 2) \<or> overflows ((std_B ^ 2) ^ 2)))) \<and>
   (p_var_call ws std_A std_B rho = Inl err \<longrightarrow> err = OverflowError) \<and>
   (weight_grid ws \<and> \<bar>rho\<bar> \<le> 2 \<and> (std_A ^ 2) ^ 2 \<le> 2 ^ 1020 \<and> (std_B ^ 2) ^ 2 \<le> 2 ^ 1020 \<longrightarrow>
      (\<exists>vs. p_var_call ws std_A std_B rho = Inr vs \<and> length vs = length ws \<and>
         (\<forall>x\<in>set vs. x = NaN \<or> (\<exists>v\<ge>0. x = Fin v)) \<and>
         (0 \<le> rho \<longrightarrow> (\<forall>x\<in>set vs. \<exists>v\<ge>0. x = Fin v))))"
proof (intro conjI impI)
  show "(\<exists>err. p_var_call ws std_A std_B rho = Inl err) \<longleftrightarrow>
      overflows (std_A ^ 2) \<or> overflows (std_B ^ 2) \<or>
      (ws \<noteq> [] \<and> (overflows ((std_A ^ 2) ^ 2) \<or> overflows ((std_B ^ 2) ^ 2)))"
    by (simp add: p_var_call_eq)
next
  assume "p_var_call ws std_A std_B rho = Inl err"
  then show "err = OverflowError" by (simp add: p_var_call_eq split: if_splits)
next
  assume d: "weight_grid ws \<and> \<bar>rho\<bar> \<le> 2 \<and> (std_A ^ 2) ^ 2 \<le> 2 ^ 1020 \<and> (std_B ^ 2) ^ 2 \<le> 2 ^ 1020"
  then have g: "weight_grid ws" by blast
  from d have A4: "(std_A ^ 2) ^ 2 \<le> 2 ^ 1020" and B4: "(std_B ^ 2) ^ 2 \<le> 2 ^ 1020"
    by blast+
  have a4: "\<not> overflows ((std_A ^ 2) ^ 2)" by (rule not_overflows_le [OF _ A4]) simp
  have b4: "\<not> overflows ((std_B ^ 2) ^ 2)" by (rule not_overflows_le [OF _ B4]) simp
  have a2: "\<not> overflows (std_A ^ 2)"
    by (rule not_overflows_le [OF _ le_of_square_le [OF _ A4]]) simp_all
  have b2: "\<not> overflows (std_B ^ 2)"
    by (rule not_overflows_le [OF _ le_of_square_le [OF _ B4]]) simp_all
  have 1: "p_var_call ws std_A std_B rho = Inr (p_var ws std_A std_B rho)"
    using a2 b2 a4 b4 by (simp add: p_var_call_eq)
  have 2: "length (p_var ws std_A std_B rho) = length ws" by (simp add: p_var_def Let_def)
  have 3: "\<forall>x\<in>set (p_var ws std_A std_B rho). x = NaN \<or> (\<exists>v\<ge>0. x = Fin v)"
    using p_var_values by blast
  have 4: "0 \<le> rho \<longrightarrow> (\<forall>x\<in>set (p_var ws std_A std_B rho). \<exists>v\<ge>0. x = Fin v)"
    using p_var_values_nonneg_rho [OF g] by blast
  from 1 2 3 4 show "\<exists>vs. p_var_call ws std_A std_B rho = Inr vs \<and> length vs = length ws \<and>
         (\<forall>x\<in>set vs. x = NaN \<or> (\<exists>v\<ge>0. x = Fin v)) \<and>
         (0 \<le> rho \<longrightarrow> (\<forall>x\<in>set vs. \<exists>v\<ge>0. x = Fin v))"
    by blast
qed

theorem p_var_call_checks_witness:
  "weight_grid [(1/2, 1/2)] \<and> \<bar>3/2 :: real\<bar> \<le> 2 \<and>
   ((1::real) ^ 2) ^ 2 \<le> 2 ^ 1020 \<and> ((2::real) ^ 2) ^ 2 \<le> 2 ^ 1020 \<and> (0::real) \<le> 3/2 \<and>
   (\<exists>vs v. p_var_call [(1/2, 1/2)] 1 2 (3/2) = Inr vs \<and> length vs = 1 \<and> 0 \<le> v \<and> vs ! 0 = Fin v)"
proof -
  let ?ws = "[(1/2, 1/2)] :: (real \<times> real) list"
  have d: "weight_grid ?ws \<and> \<bar>3/2 :: real\<bar> \<le> 2 \<and>
      ((1::real) ^ 2) ^ 2 \<le> 2 ^ 1020 \<and> ((2::real) ^ 2) ^ 2 \<le> 2 ^ 1020"
  proof -
    have "(1::real) \<le> 2 ^ 1020" by (rule one_le_power) simp
    moreover have "((2::real) ^ 2) ^ 2 = 2 ^ 4" by simp
    moreover have "(2::real) ^ 4 \<le> 2 ^ 1020" by (rule power_increasing) simp_all
    moreover have "weight_grid ?ws" by (simp add: weight_grid_def)
    ultimately show ?thesis by (simp only: one_power2 abs_le_iff) simp
  qed
  have r: "(0::real) \<le> 3/2" by simp
  from p_var_call_checks [of ?ws 1 2 "3/2"] d r obtain vs where
    vs: "p_var_call ?ws 1 2 (3/2) = Inr vs" "length vs = length ?ws"
        "\<forall>x\<in>set vs. \<exists>v\<ge>0. x = Fin v"
    by blast
  from vs(2) have l: "length vs = 1" by simp
  then have "vs ! 0 \<in> set vs" by (cases vs) simp_all
  with vs(3) obtain v where "0 \<le> v" "vs ! 0 = Fin v" by blast
  with d r vs(1) l show ?thesis by blast
qed

section \<open>The Sharpe search\<close>

subsection \<open>The scan\<close>

lemma scan_step_snd_fixed:
  "\<not> fl_eq0 (snd st) \<Longrightarrow> snd (scan_step r_f rets vol ie st) = snd st"
  by (simp add: scan_step_def Let_def)

lemma scan_step_seed:
  "scan_step r_f rets vol (i, e) (None, Fin 0) = (Some e, sharpe_at r_f rets vol i)"
proof -
  have "\<not> fl_gt s s" for s by (cases s) simp_all
  then show ?thesis by (simp add: scan_step_def Let_def fl_eq0_def)
qed

lemma fold_scan_snd_fixed:
  "\<not> fl_eq0 (snd st) \<Longrightarrow> snd (fold (scan_step r_f rets vol) (enumerate n xs) st) = snd st"
proof (induction xs arbitrary: n st)
  case Nil
  then show ?case by simp
next
  case (Cons x xs)
  have "\<not> fl_eq0 (snd (scan_step r_f rets vol (n, x) st))"
    using Cons.prems by (simp add: scan_step_snd_fixed)
  from Cons.IH [OF this] show ?case using Cons.prems by (simp add: scan_step_snd_fixed)
qed

lemma fold_scan_unchanged:
  assumes "\<not> fl_eq0 (snd st)" "fst st \<noteq> None"
    and "\<forall>k. n \<le> k \<and> k < n + length xs \<longrightarrow> \<not> fl_gt (sharpe_at r_f rets vol k) (snd st)"
  shows "fold (scan_step r_f rets vol) (enumerate n xs) st = st"
  using assms
proof (induction xs arbitrary: n)
  case Nil
  then show ?case by simp
next
  case (Cons x xs)
  from Cons.prems(3) have "\<not> fl_gt (sharpe_at r_f rets vol n) (snd st)" by simp
  then have s: "scan_step r_f rets vol (n, x) st = st"
    using Cons.prems(1,2) by (cases st) (simp add: scan_step_def Let_def)
  have "\<forall>k. Suc n \<le> k \<and> k < Suc n + length xs \<longrightarrow> \<not> fl_gt (sharpe_at r_f rets vol k) (snd st)"
    using Cons.prems(3) by simp
  from Cons.IH [OF Cons.prems(1,2) this] s show ?case by simp
qed

lemma sharpes_nth:
  "i < length ws \<Longrightarrow> sharpes r_f ws A B rho ! i =
     sharpe_at r_f (p_returns ws (fst A) (fst B)) (p_var ws (snd A) (snd B) rho) i"
  by (simp add: sharpes_def)

lemma max_sharpe_Cons:
  "max_sharpe r_f (e # es) A B rho =
     fold (scan_step r_f (p_returns (e # es) (fst A) (fst B)) (p_var (e # es) (snd A) (snd B) rho))
       (enumerate (Suc 0) es)
       (Some e, sharpes r_f (e # es) A B rho ! 0)"
proof -
  have "sharpes r_f (e # es) A B rho ! 0 =
      sharpe_at r_f (p_returns (e # es) (fst A) (fst B)) (p_var (e # es) (snd A) (snd B) rho) 0"
    by (simp add: sharpes_nth)
  then show ?thesis by (simp add: max_sharpe_def Let_def scan_step_seed)
qed

lemma max_sharpe_ratio_first:
  assumes "ws \<noteq> []" "sharpes r_f ws A B rho ! 0 \<noteq> Fin 0"
  shows "snd (max_sharpe r_f ws A B rho) = sharpes r_f ws A B rho ! 0"
proof -
  from assms(1) obtain e es where ws: "ws = e # es" by (cases ws) auto
  show ?thesis unfolding ws max_sharpe_Cons
    using assms(2) by (simp add: fold_scan_snd_fixed fl_eq0_def ws)
qed

lemma max_sharpe_first:
  assumes "ws \<noteq> []" "sharpes r_f ws A B rho ! 0 \<noteq> Fin 0"
    and "\<forall>k. 0 < k \<and> k < length ws \<longrightarrow> \<not> fl_gt (sharpes r_f ws A B rho ! k) (sharpes r_f ws A B rho ! 0)"
  shows "max_sharpe r_f ws A B rho = (Some (ws ! 0), sharpes r_f ws A B rho ! 0)"
proof -
  from assms(1) obtain e es where ws: "ws = e # es" by (cases ws) auto
  let ?f = "scan_step r_f (p_returns ws (fst A) (fst B)) (p_var ws (snd A) (snd B) rho)"
  let ?s0 = "sharpes r_f ws A B rho ! 0"
  have "\<forall>k. Suc 0 \<le> k \<and> k < Suc 0 + length es \<longrightarrow>
      \<not> fl_gt (sharpe_at r_f (p_returns ws (fst A) (fst B)) (p_var ws (snd A) (snd B) rho) k) (snd (Some e, ?s0))"
    using assms(3) by (auto simp: ws sharpes_nth)
  then have "fold ?f (enumerate (Suc 0) es) (Some e, ?s0) = (Some e, ?s0)"
    using assms(2) by (intro fold_scan_unchanged) (simp_all add: fl_eq0_def)
  then show ?thesis using max_sharpe_Cons [of r_f e es A B rho] by (simp add: ws)
qed

lemma max_sharpe_last_gt:
  assumes "sharpes r_f ws A B rho ! 0 \<noteq> Fin 0" "0 < j" "j < length ws"
    and "fl_gt (sharpes r_f ws A B rho ! j) (sharpes r_f ws A B rho ! 0)"
    and "\<forall>k. j < k \<and> k < length ws \<longrightarrow> \<not> fl_gt (sharpes r_f ws A B rho ! k) (sharpes r_f ws A B rho ! 0)"
  shows "max_sharpe r_f ws A B rho = (Some (ws ! j), sharpes r_f ws A B rho ! 0)"
proof -
  from assms(3) obtain e es where ws: "ws = e # es" by (cases ws) auto
  let ?rets = "p_returns ws (fst A) (fst B)"
  let ?vol = "p_var ws (snd A) (snd B) rho"
  let ?f = "scan_step r_f ?rets ?vol"
  let ?s0 = "sharpes r_f ws A B rho ! 0"
  obtain i where j: "j = Suc i" using assms(2) by (cases j) auto
  have i: "i < length es" using assms(3) by (simp add: ws j)
  have es: "es = take i es @ es ! i # drop (Suc i) es" by (rule id_take_nth_drop [OF i])
  define st1 where "st1 = fold ?f (enumerate (Suc 0) (take i es)) (Some e, ?s0)"
  have nz: "\<not> fl_eq0 ?s0" using assms(1) by (simp add: fl_eq0_def)
  have st1_snd: "snd st1 = ?s0" unfolding st1_def using nz by (simp add: fold_scan_snd_fixed)
  have sj: "sharpe_at r_f ?rets ?vol j = sharpes r_f ws A B rho ! j"
    using assms(3) by (simp add: sharpes_nth)
  have st2: "?f (j, es ! i) st1 = (Some (es ! i), ?s0)"
    using st1_snd nz assms(4) by (simp add: scan_step_def Let_def sj)
  have rest: "\<forall>k. Suc j \<le> k \<and> k < Suc j + length (drop (Suc i) es) \<longrightarrow>
      \<not> fl_gt (sharpe_at r_f ?rets ?vol k) (snd (Some (es ! i), ?s0))"
    using assms(5) i by (auto simp: ws j sharpes_nth)
  have st3: "fold ?f (enumerate (Suc j) (drop (Suc i) es)) (Some (es ! i), ?s0) = (Some (es ! i), ?s0)"
    using nz by (intro fold_scan_unchanged rest) simp_all
  have len: "length (take i es) = i" using i by simp
  have il: "min (length es) i = i" using i by simp
  have "enumerate (Suc 0) (take i es @ es ! i # drop (Suc i) es) =
      enumerate (Suc 0) (take i es) @ (j, es ! i) # enumerate (Suc j) (drop (Suc i) es)"
    by (simp add: enumerate_append_eq j il)
  then have "enumerate (Suc 0) es =
      enumerate (Suc 0) (take i es) @ (j, es ! i) # enumerate (Suc j) (drop (Suc i) es)"
    by (simp only: es [symmetric])
  then have "fold ?f (enumerate (Suc 0) es) (Some e, ?s0) = (Some (es ! i), ?s0)"
    using st2 st3 by (simp add: st1_def)
  moreover have "ws ! j = es ! i" by (simp add: ws j)
  ultimately show ?thesis using max_sharpe_Cons [of r_f e es A B rho] by (simp add: ws)
qed

lemma pow_half_square: "0 \<le> y \<Longrightarrow> pow_half (y * y) = Fin y"
  by (simp add: pow_half_def)

lemma fl_gt_div_pow_half:
  assumes "0 < v" "0 < c"
  shows "fl_gt (fl_div n (pow_half v)) (Fin c) \<longleftrightarrow> 0 < n \<and> c ^ 2 * v < n ^ 2"
proof -
  have sp: "0 < sqrt v" using assms(1) by simp
  have "fl_gt (fl_div n (pow_half v)) (Fin c) \<longleftrightarrow> c < n / sqrt v"
    using assms(1) sp by (simp add: pow_half_def)
  also have "\<dots> \<longleftrightarrow> c * sqrt v < n" using sp by (simp add: pos_less_divide_eq)
  also have "\<dots> \<longleftrightarrow> 0 < n \<and> (c * sqrt v) ^ 2 < n ^ 2"
  proof
    assume a: "c * sqrt v < n"
    have "0 < c * sqrt v" using assms(2) sp by simp
    with a show "0 < n \<and> (c * sqrt v) ^ 2 < n ^ 2"
      by (simp add: power_strict_mono less_imp_le)
  next
    assume "0 < n \<and> (c * sqrt v) ^ 2 < n ^ 2"
    then show "c * sqrt v < n" by (simp add: power2_less_imp_less less_imp_le)
  qed
  also have "(c * sqrt v) ^ 2 = c ^ 2 * v" using assms(1) by (simp add: power_mult_distrib)
  finally show ?thesis .
qed

subsection \<open>What the search returns\<close>

text \<open>
  Claim C2 says that the search returns the weights of the first grid point with the
  largest Sharpe ratio, together with that ratio. On the five-point grid below, with
  \<open>A = (1, 1)\<close>, \<open>B = (1, 2)\<close>, \<open>rho = -1\<close> and \<open>r_f = 0\<close>, no volatility is zero and
  the Sharpe ratios are \<open>1/4, 4/11, 2/3, 4, 1\<close>: the largest is \<open>4\<close>, at
  \<open>(3/4, 1/4)\<close>. The code returns the weights \<open>(1, 0)\<close>, the last point whose ratio
  exceeds that of the first point, and the ratio \<open>1/4\<close> of the first point.
\<close>

theorem max_sharpe_not_argmax:
  "sharpes 0 [(0, 1), (1/4, 3/4), (1/2, 1/2), (3/4, 1/4), (1, 0)] (1, 1) (1, 2) (- 1)
     = [Fin (1/4), Fin (4/11), Fin (2/3), Fin 4, Fin 1] \<and>
   max_sharpe 0 [(0, 1), (1/4, 3/4), (1/2, 1/2), (3/4, 1/4), (1, 0)] (1, 1) (1, 2) (- 1)
     = (Some (1, 0), Fin (1/4))"
proof -
  let ?ws = "[(0, 1), (1/4, 3/4), (1/2, 1/2), (3/4, 1/4), (1, 0 :: real)] :: (real \<times> real) list"
  have v: "p_var ?ws 1 2 (- 1) = [Fin 4, Fin (11/4), Fin (3/2), Fin (1/4), Fin 1]"
  proof -
    have "pow_half 16 = Fin 4" using pow_half_square [of 4] by simp
    moreover have "pow_half (121/16) = Fin (11/4)" using pow_half_square [of "11/4"] by simp
    moreover have "pow_half (9/4) = Fin (3/2)" using pow_half_square [of "3/2"] by simp
    moreover have "pow_half (1/16) = Fin (1/4)" using pow_half_square [of "1/4"] by simp
    moreover have "pow_half 1 = Fin 1" using pow_half_square [of 1] by simp
    ultimately show ?thesis by (simp add: p_var_def power2_eq_square)
  qed
  have r: "p_returns ?ws 1 1 = [1, 1, 1, 1, 1]" by (simp add: p_returns_def)
  have s: "sharpes 0 ?ws (1, 1) (1, 2) (- 1) = [Fin (1/4), Fin (4/11), Fin (2/3), Fin 4, Fin 1]"
    by (simp add: sharpes_def sharpe_at_def v r upt_rec [of 0] upt_rec [of "Suc 0"] eval_nat_numeral)
  have m: "max_sharpe 0 ?ws (1, 1) (1, 2) (- 1) = (Some (?ws ! 4), sharpes 0 ?ws (1, 1) (1, 2) (- 1) ! 0)"
    by (rule max_sharpe_last_gt) (simp_all add: s)
  show ?thesis using s m by simp
qed

text \<open>
  Claim C3. On the 25-point grid with \<open>A = (0.15, 0.18)\<close>, \<open>B = (0.07, 0.10)\<close>,
  \<open>rho = -0.3\<close> and \<open>r_f = 0.03\<close> the search returns the weight pair with
  \<open>w_A = 20/24\<close> and the Sharpe ratio \<open>4\<close>.
\<close>

theorem max_sharpe_known_value:
  "\<exists>ws. weights 25 = Inr ws \<and>
     max_sharpe (3/100) ws (15/100, 18/100) (7/100, 10/100) (- 3/10)
       = (Some (20/24, 1 - 20/24), Fin 4)"
proof -
  define ws :: "(real \<times> real) list"
    where "ws = map (\<lambda>k. (real k / 24, 1 - real k / 24)) [0..<25]"
  define N :: "nat \<Rightarrow> real"
    where "N k = real k / 24 * (15/100) + (1 - real k / 24) * (7/100) - 3/100" for k
  define V :: "nat \<Rightarrow> real"
    where "V k = (((18/100) ^ 2) ^ 2) * ((real k / 24) ^ 2) + (((10/100) ^ 2) ^ 2) * ((1 - real k / 24) ^ 2)
                 + prod_list [2, real k / 24, 1 - real k / 24, (18/100) ^ 2, (10/100) ^ 2, - 3/10]" for k
  let ?S = "sharpes (3/100) ws (15/100, 18/100) (7/100, 10/100) (- 3/10)"
  have w: "weights 25 = Inr ws"
    using weights_unit [of 25] by (simp add: ws_def)
  have len: "length ws = 25" by (simp add: ws_def)
  have nth: "?S ! k = fl_div (N k) (pow_half (V k))" if "k < 25" for k
    using that by (simp add: sharpes_nth len sharpe_at_def p_returns_def p_var_def Let_def
        ws_def N_def V_def)
  have s0: "?S ! 0 = Fin 4"
  proof -
    have "V 0 = (1/100) * (1/100)" by (simp add: V_def power2_eq_square)
    then have p: "pow_half (V 0) = Fin (1/100)"
      by (simp only: pow_half_square [of "1/100"] divide_nonneg_nonneg zero_le_one zero_le_numeral)
    have n: "N 0 = 4/100" by (simp add: N_def)
    have "?S ! 0 = fl_div (N 0) (pow_half (V 0))" by (rule nth) simp
    also have "\<dots> = fl_div (4/100) (Fin (1/100))" by (simp only: p n)
    also have "\<dots> = Fin 4" by simp
    finally show ?thesis .
  qed
  have gt: "fl_gt (?S ! 20) (?S ! 0)"
  proof -
    have "0 < V 20" by (simp add: V_def power2_eq_square)
    from fl_gt_div_pow_half [OF this, of 4 "N 20"]
    have "fl_gt (fl_div (N 20) (pow_half (V 20))) (Fin 4)"
      by (simp add: N_def V_def power2_eq_square)
    moreover have "?S ! 20 = fl_div (N 20) (pow_half (V 20))" by (rule nth) simp
    ultimately show ?thesis by (simp only: s0)
  qed
  have le: "\<not> fl_gt (?S ! k) (?S ! 0)" if "20 < k" "k < 25" for k
  proof -
    from that have "k = 21 \<or> k = 22 \<or> k = 23 \<or> k = 24" by arith
    then have v: "0 < V k" and c: "\<not> (0 < N k \<and> 4 ^ 2 * V k < N k ^ 2)"
      by (auto simp: V_def N_def power2_eq_square)
    from fl_gt_div_pow_half [OF v, of 4 "N k"] c
    have "\<not> fl_gt (fl_div (N k) (pow_half (V k))) (Fin 4)" by simp
    then show ?thesis unfolding nth [OF that(2)] s0 .
  qed
  have "max_sharpe (3/100) ws (15/100, 18/100) (7/100, 10/100) (- 3/10) = (Some (ws ! 20), ?S ! 0)"
  proof (rule max_sharpe_last_gt)
    show "?S ! 0 \<noteq> Fin 0" unfolding s0 by simp
    show "(0::nat) < 20" by simp
    show "20 < length ws" by (simp add: len)
    show "fl_gt (?S ! 20) (?S ! 0)" by (rule gt)
    show "\<forall>k. 20 < k \<and> k < length ws \<longrightarrow> \<not> fl_gt (?S ! k) (?S ! 0)"
      using le by (simp only: len) blast
  qed
  moreover have "ws ! 20 = (20/24, 1 - 20/24)" by (simp add: ws_def)
  ultimately have "max_sharpe (3/100) ws (15/100, 18/100) (7/100, 10/100) (- 3/10)
      = (Some (20/24, 1 - 20/24), Fin 4)"
    by (simp only: s0)
  with w show ?thesis by blast
qed








text \<open>
  Claim C10. For every non-empty grid whose first grid point has a Sharpe ratio other
  than zero, the ratio returned by the search is the ratio of the first grid point; and
  there are such inputs, on a weight grid, where the returned weights are those of
  another grid point whose ratio differs from the returned one.
\<close>

theorem max_sharpe_returns_first_ratio:
  "(ws \<noteq> [] \<and> sharpes r_f ws A B rho ! 0 \<noteq> Fin 0 \<longrightarrow>
      snd (max_sharpe r_f ws A B rho) = sharpes r_f ws A B rho ! 0) \<and>
   (\<exists>r_f' ws' A' B' rho'. weight_grid ws' \<and> ws' \<noteq> [] \<and>
      sharpes r_f' ws' A' B' rho' ! 0 \<noteq> Fin 0 \<and>
      fst (max_sharpe r_f' ws' A' B' rho') = Some (ws' ! 1) \<and>
      sharpes r_f' ws' A' B' rho' ! 1 \<noteq> snd (max_sharpe r_f' ws' A' B' rho'))"
proof
  show "ws \<noteq> [] \<and> sharpes r_f ws A B rho ! 0 \<noteq> Fin 0 \<longrightarrow>
      snd (max_sharpe r_f ws A B rho) = sharpes r_f ws A B rho ! 0"
    by (simp add: max_sharpe_ratio_first)
next
  let ?ws = "[(0, 1), (1, 0)] :: (real \<times> real) list"
  have g: "weight_grid ?ws" "?ws \<noteq> []" by (simp_all add: weight_grid_def)
  have s: "sharpes 0 ?ws (2, 1) (1, 1) 0 = [Fin 1, Fin 2]"
    by (simp add: sharpes_def sharpe_at_def p_returns_def p_var_def pow_half_def
        upt_rec [of 0] upt_rec [of "Suc 0"])
  have n: "sharpes 0 ?ws (2, 1) (1, 1) 0 ! 0 \<noteq> Fin 0" by (simp add: s)
  have m: "max_sharpe 0 ?ws (2, 1) (1, 1) 0 = (Some (?ws ! 1), sharpes 0 ?ws (2, 1) (1, 1) 0 ! 0)"
    by (rule max_sharpe_last_gt) (simp_all add: s)
  have "fst (max_sharpe 0 ?ws (2, 1) (1, 1) 0) = Some (?ws ! 1) \<and>
      sharpes 0 ?ws (2, 1) (1, 1) 0 ! 1 \<noteq> snd (max_sharpe 0 ?ws (2, 1) (1, 1) 0)"
    unfolding m by (simp add: s)
  with g n show "\<exists>r_f' ws' A' B' rho'. weight_grid ws' \<and> ws' \<noteq> [] \<and>
      sharpes r_f' ws' A' B' rho' ! 0 \<noteq> Fin 0 \<and>
      fst (max_sharpe r_f' ws' A' B' rho') = Some (ws' ! 1) \<and>
      sharpes r_f' ws' A' B' rho' ! 1 \<noteq> snd (max_sharpe r_f' ws' A' B' rho')"
    by blast
qed

theorem max_sharpe_returns_first_ratio_witness:
  "[(0, 1), (1/2, 1/2), (1, 0)] \<noteq> ([] :: (real \<times> real) list) \<and>
   sharpes 0 [(0, 1), (1/2, 1/2), (1, 0)] (3, 1) (1, 1) 1 ! 0 = Fin 1 \<and>
   snd (max_sharpe 0 [(0, 1), (1/2, 1/2), (1, 0)] (3, 1) (1, 1) 1) = Fin 1"
proof -
  let ?ws = "[(0, 1), (1/2, 1/2), (1, 0)] :: (real \<times> real) list"
  have a: "?ws \<noteq> []" by simp
  have b: "sharpes 0 ?ws (3, 1) (1, 1) 1 ! 0 = Fin 1"
    by (simp add: sharpes_nth sharpe_at_def p_returns_def p_var_def pow_half_def)
  then have c: "sharpes 0 ?ws (3, 1) (1, 1) 1 ! 0 \<noteq> Fin 0" by simp
  from max_sharpe_returns_first_ratio [of ?ws 0 "(3, 1)" "(1, 1)" 1] a c
  have "snd (max_sharpe 0 ?ws (3, 1) (1, 1) 1) = sharpes 0 ?ws (3, 1) (1, 1) 1 ! 0" by blast
  with a b show ?thesis by simp
qed

end
